theory Spec2Isabelle
  imports Main "HOL-Library.Word" "HOL-Library.Sublist"
begin

section \<open>JavaScript strings\<close>

text \<open>
  A JavaScript string is a sequence of UTF-16 code units. \<open>lit\<close> embeds an ASCII
  literal of the source text; \<open>slice(0, 7)\<close> is \<open>take 7\<close>.
\<close>

type_synonym jschar = "16 word"
type_synonym jsstring = "jschar list"

definition lit :: "string \<Rightarrow> jsstring" where
  "lit s = map of_char s"

abbreviation LF :: jschar where "LF \<equiv> 10"
abbreviation CR :: jschar where "CR \<equiv> 13"
abbreviation ESC :: jschar where "ESC \<equiv> 27"

text \<open>\<open>String.prototype.split\<close> with a separator of one code unit. The result is
  never the empty array: \<open>"".split("\n")\<close> is \<open>[""]\<close>.\<close>

fun js_split :: "jschar \<Rightarrow> jsstring \<Rightarrow> jsstring list" where
  "js_split sep [] = [[]]"
| "js_split sep (c # cs) =
     (if c = sep then [] # js_split sep cs
      else (case js_split sep cs of
              [] \<Rightarrow> [[c]]
            | w # ws \<Rightarrow> (c # w) # ws))"

text \<open>\<open>Array.prototype.join\<close> on an array of strings.\<close>

fun js_join :: "jsstring \<Rightarrow> jsstring list \<Rightarrow> jsstring" where
  "js_join sep [] = []"
| "js_join sep [x] = x"
| "js_join sep (x # y # ys) = x @ sep @ js_join sep (y # ys)"

text \<open>The code units \<open>String.prototype.trim\<close> strips: ECMAScript WhiteSpace and
  LineTerminator.\<close>

definition js_whitespace :: "jschar \<Rightarrow> bool" where
  "js_whitespace c \<longleftrightarrow>
     c = 0x09 \<or> c = 0x0A \<or> c = 0x0B \<or> c = 0x0C \<or> c = 0x0D \<or> c = 0x20 \<or> c = 0xA0
     \<or> c = 0x1680 \<or> (0x2000 \<le> c \<and> c \<le> 0x200A) \<or> c = 0x2028 \<or> c = 0x2029
     \<or> c = 0x202F \<or> c = 0x205F \<or> c = 0x3000 \<or> c = 0xFEFF"

definition js_trim :: "jsstring \<Rightarrow> jsstring" where
  "js_trim s = rev (dropWhile js_whitespace (rev (dropWhile js_whitespace s)))"

text \<open>\<open>haystack.includes(needle)\<close>.\<close>

fun js_includes :: "jsstring \<Rightarrow> jsstring \<Rightarrow> bool" where
  "js_includes [] n = (n = [])"
| "js_includes (c # cs) n = (prefix n (c # cs) \<or> js_includes cs n)"

text \<open>\<open>s.replace(/pat/g, rep)\<close> for a pattern that is a fixed, non-empty string and a
  replacement without \<open>$\<close>: the leftmost matches, not overlapping, are replaced.\<close>

fun js_replace_all :: "jsstring \<Rightarrow> jsstring \<Rightarrow> jsstring \<Rightarrow> jsstring" where
  "js_replace_all pat rep [] = []"
| "js_replace_all pat rep (c # cs) =
     (if pat \<noteq> [] \<and> prefix pat (c # cs)
      then rep @ js_replace_all pat rep (drop (length pat) (c # cs))
      else c # js_replace_all pat rep cs)"

section \<open>The colour functions\<close>

text \<open>
  \<open>mod.ts\<close> colours its output with the functions of the package \<open>ansi-colors\<close>, an
  external dependency. Its \<open>style\<close> function returns the empty string for an empty
  input, the input itself when \<open>colors.enabled\<close> is false (the environment variable
  \<open>FORCE_COLOR\<close> is \<open>0\<close>), and otherwise the input between the SGR escape sequences of
  the colour. An occurrence of the closing sequence inside the input is followed by the
  opening one again, and when the input holds a newline every \<open>/\r*\n/\<close> of the wrapped
  text is put between the closing and the opening sequence. \<open>colors.visible\<close> is never
  changed by the program and stays true.
\<close>

definition sgr :: "string \<Rightarrow> jsstring" where
  "sgr code = ESC # lit ''['' @ lit code @ lit ''m''"

text \<open>\<open>output.replace(/\r*\n/g, close + "$&" + open)\<close>: \<open>crs\<close> holds the carriage
  returns read since the last other code unit.\<close>

fun replace_newlines :: "jsstring \<Rightarrow> jsstring \<Rightarrow> jsstring \<Rightarrow> jsstring \<Rightarrow> jsstring" where
  "replace_newlines cls opn crs [] = crs"
| "replace_newlines cls opn crs (c # cs) =
     (if c = CR then replace_newlines cls opn (crs @ [c]) cs
      else if c = LF then cls @ crs @ [LF] @ opn @ replace_newlines cls opn [] cs
      else crs @ c # replace_newlines cls opn [] cs)"

definition wrap :: "jsstring \<Rightarrow> jsstring \<Rightarrow> jsstring \<Rightarrow> bool \<Rightarrow> jsstring" where
  "wrap opn cls input newline =
     (let input' = (if js_includes input cls then js_replace_all cls (cls @ opn) input
                    else input);
          output = opn @ input' @ cls
      in if newline then replace_newlines cls opn [] output else output)"

definition style :: "bool \<Rightarrow> string \<Rightarrow> string \<Rightarrow> jsstring \<Rightarrow> jsstring" where
  "style enabled c0 c1 input =
     (if input = [] then []
      else if \<not> enabled then input
      else wrap (sgr c0) (sgr c1) input (js_includes input [LF]))"

definition red :: "bool \<Rightarrow> jsstring \<Rightarrow> jsstring" where
  "red enabled = style enabled ''31'' ''39''"

definition green :: "bool \<Rightarrow> jsstring \<Rightarrow> jsstring" where
  "green enabled = style enabled ''32'' ''39''"

definition yellow :: "bool \<Rightarrow> jsstring \<Rightarrow> jsstring" where
  "yellow enabled = style enabled ''33'' ''39''"

definition cyan :: "bool \<Rightarrow> jsstring \<Rightarrow> jsstring" where
  "cyan enabled = style enabled ''36'' ''39''"

definition white :: "bool \<Rightarrow> jsstring \<Rightarrow> jsstring" where
  "white enabled = style enabled ''37'' ''39''"

section \<open>Commits and the environment\<close>

record Author =
  name :: jsstring
  email :: jsstring
  timestamp :: int

record GitCommit =
  author :: Author
  message :: jsstring

record GitLogEntry =
  commit :: GitCommit
  oid :: jsstring

text \<open>
  What the program reads from outside itself: the configured root, whether
  \<open>ansi-colors\<close> is enabled, the host's \<open>Date.prototype.toLocaleDateString\<close> for the
  options of \<open>formatGitLog\<close> (a function of the time in milliseconds, fixed by the host's
  time zone), \<open>path.join\<close>, and \<open>git.log\<close> on the file system as it is during the call,
  which returns the commits of a directory or throws.
\<close>

datatype thrown = JsError jsstring | NonError

record env =
  root :: jsstring
  colors_enabled :: bool
  toLocaleDateString :: "int \<Rightarrow> jsstring"
  path_join :: "jsstring \<Rightarrow> jsstring \<Rightarrow> jsstring"
  git_log :: "jsstring \<Rightarrow> thrown + GitLogEntry list"

section \<open>formatGitLog\<close>

text \<open>The callback of the oneline branch. \<open>split("\n")[0]\<close> of an empty array would be
  \<open>undefined\<close>, which \<open>colors.white\<close> turns into the empty string.\<close>

definition oneline_entry :: "env \<Rightarrow> GitLogEntry \<Rightarrow> jsstring" where
  "oneline_entry E e =
     (let shortSha = yellow (colors_enabled E) (take 7 (oid e));
          msg = white (colors_enabled E)
                  (case js_split LF (message (commit e)) of [] \<Rightarrow> [] | l # _ \<Rightarrow> l)
      in shortSha @ lit '' '' @ msg)"

text \<open>The six array elements of the verbose branch, before \<open>join("\n")\<close>.\<close>

definition verbose_lines :: "env \<Rightarrow> GitLogEntry \<Rightarrow> jsstring list" where
  "verbose_lines E e =
     (let date = timestamp (author (commit e)) * 1000;
          formattedDate = toLocaleDateString E date
      in [yellow (colors_enabled E) (lit ''commit '' @ oid e),
          lit ''Author: '' @ cyan (colors_enabled E) (name (author (commit e)))
            @ lit '' <'' @ cyan (colors_enabled E) (email (author (commit e))) @ lit ''>'',
          lit ''Date:   '' @ green (colors_enabled E) formattedDate,
          [],
          lit ''    '' @ white (colors_enabled E) (js_trim (message (commit e))),
          []])"

definition verbose_entry :: "env \<Rightarrow> GitLogEntry \<Rightarrow> jsstring" where
  "verbose_entry E e = js_join [LF] (verbose_lines E e)"

definition formatGitLog :: "env \<Rightarrow> GitLogEntry list \<Rightarrow> bool \<Rightarrow> jsstring" where
  "formatGitLog E commits oneline =
     (if oneline then js_join [LF] (map (oneline_entry E) commits)
      else js_join [LF] (map (verbose_entry E) commits))"

section \<open>The request handler of \<open>/api/:repo\<close>\<close>

text \<open>
  The part of Hono's context the handler reads: the route parameter \<open>repo\<close> and the
  decoded query parameters in the order of the URL. \<open>c.req.query(key)\<close> is the value of
  the first parameter of that name, and \<open>undefined\<close> when there is none.
\<close>

record ctx =
  param_repo :: jsstring
  query :: "(jsstring \<times> jsstring) list"

definition req_query :: "ctx \<Rightarrow> jsstring \<Rightarrow> jsstring option" where
  "req_query c key = map_of (query c) key"

datatype json = JBool bool | JString jsstring | JNumber int | JObject "(string \<times> json) list"

datatype body = Text jsstring | Json json

record response =
  status :: nat
  body :: body

text \<open>\<open>error instanceof Error ? error.message : 'Unknown error'\<close>\<close>

definition error_message :: "thrown \<Rightarrow> jsstring" where
  "error_message error = (case error of JsError m \<Rightarrow> m | NonError \<Rightarrow> lit ''Unknown error'')"

definition api_repo :: "env \<Rightarrow> ctx \<Rightarrow> response" where
  "api_repo E c =
     (let dir = path_join E (root E) (param_repo c)
      in case git_log E dir of
           Inr commits \<Rightarrow>
             (let oneline = (req_query c (lit ''oneline'') \<noteq> None);
                  formatted = formatGitLog E commits oneline
              in \<lparr>status = 200, body = Text formatted\<rparr>)
         | Inl error \<Rightarrow>
             (let errorMessage = error_message error
              in \<lparr>status = 404,
                  body = Text (red (colors_enabled E) (lit ''Error: '' @ errorMessage))\<rparr>))"

section \<open>The error handler of the application\<close>




section \<open>The command line\<close>

text \<open>What a run leaves behind: the arguments of its \<open>console.log\<close> and
  \<open>console.error\<close> calls and the code given to \<open>process.exit\<close>, \<open>None\<close> when \<open>run\<close>
  returns without calling it.\<close>

record outcome =
  stdout :: "jsstring list"
  stderr :: "jsstring list"
  exit_code :: "nat option"

definition run :: "env \<Rightarrow> jsstring list \<Rightarrow> outcome" where
  "run E args =
     (if length args = 0
      then \<lparr>stdout = [],
            stderr = [lit ''No repository specified. Usage: mod.ts <repo-name> [--oneline]''],
            exit_code = Some 1\<rparr>
      else
        (let repo = args ! 0;
             oneline = (lit ''--oneline'' \<in> set args)
         in case git_log E (path_join E (root E) repo) of
              Inr commits \<Rightarrow>
                \<lparr>stdout = [formatGitLog E commits oneline], stderr = [], exit_code = None\<rparr>
            | Inl error \<Rightarrow>
                \<lparr>stdout = [],
                 stderr = [red (colors_enabled E) (lit ''Error: '' @ error_message error)],
                 exit_code = Some 1\<rparr>))"

section \<open>Object identifiers and occurrences\<close>

text \<open>An object identifier as \<open>git.log\<close> returns it: 40 lowercase hexadecimal digits.\<close>

definition is_hex :: "jschar \<Rightarrow> bool" where
  "is_hex c \<longleftrightarrow> c \<in> set (lit ''0123456789abcdef'')"

definition is_object_id :: "jsstring \<Rightarrow> bool" where
  "is_object_id s \<longleftrightarrow> length s = 40 \<and> list_all is_hex s"

text \<open>An entry as \<open>git.log\<close> returns it. The library removes every carriage return
  from the message of a commit when it reads the commit.\<close>

definition is_git_log_entry :: "GitLogEntry \<Rightarrow> bool" where
  "is_git_log_entry e \<longleftrightarrow> is_object_id (oid e) \<and> CR \<notin> set (message (commit e))"

text \<open>The first line of a message in the words of the specification: the text up to the
  first newline, without a carriage return at its end.\<close>

definition spec_first_line :: "jsstring \<Rightarrow> jsstring" where
  "spec_first_line m =
     (let l = takeWhile (\<lambda>c. c \<noteq> LF) m
      in if l \<noteq> [] \<and> last l = CR then butlast l else l)"

text \<open>The number of positions of a text at which a given string starts.\<close>

fun count_occurrences :: "jsstring \<Rightarrow> jsstring \<Rightarrow> nat" where
  "count_occurrences [] n = (if n = [] then 1 else 0)"
| "count_occurrences (c # cs) n =
     (if prefix n (c # cs) then 1 else 0) + count_occurrences cs n"

section \<open>Example inputs\<close>

text \<open>A host in the time zone UTC, at the two times the examples use.\<close>

definition utc_date :: "int \<Rightarrow> jsstring" where
  "utc_date ms = (if ms = 1700000000000 then lit ''Tue, Nov 14, 2023, 10:13:20 PM UTC''
                  else lit ''Thu, Jan 01, 1970, 12:00:00 AM UTC'')"

definition initial_commit :: GitLogEntry where
  "initial_commit =
     \<lparr>commit = \<lparr>author = \<lparr>name = lit ''Ada'', email = lit ''ada@example.org'',
                            timestamp = 1700000000\<rparr>,
                message = lit ''Initial commit'' @ [LF]\<rparr>,
      oid = lit ''abc12340123456789abcdef0123456789abcdef0''\<rparr>"

text \<open>The commit \<open>git revert\<close> writes for \<open>initial_commit\<close>: its message names the
  commit it reverts.\<close>

definition revert_commit :: GitLogEntry where
  "revert_commit =
     \<lparr>commit = \<lparr>author = \<lparr>name = lit ''Ada'', email = lit ''ada@example.org'',
                            timestamp = 1700000000\<rparr>,
                message = lit ''Revert '' @ [0x22] @ lit ''Initial commit'' @ [0x22, LF, LF]
                          @ lit ''This reverts commit abc12340123456789abcdef0123456789abcdef0.'' @ [LF]\<rparr>,
      oid = lit ''9fceb02d0ae598e95dc970b74767f19372d61af8''\<rparr>"

text \<open>One repository, \<open>demo\<close>, under the root \<open>/repos\<close>; \<open>git.log\<close> fails on every other
  directory.\<close>

definition demo_env :: "bool \<Rightarrow> env" where
  "demo_env enabled =
     \<lparr>root = lit ''/repos'',
      colors_enabled = enabled,
      toLocaleDateString = utc_date,
      path_join = (\<lambda>a b. a @ lit ''/'' @ b),
      git_log = (\<lambda>dir. if dir = lit ''/repos/demo'' then Inr [initial_commit]
                        else Inl (JsError (lit ''Could not find HEAD.'')))\<rparr>"

text \<open>The same host with colouring enabled, where \<open>git.log\<close> throws an error whose
  message has two lines.\<close>

definition broken_env :: env where
  "broken_env =
     \<lparr>root = lit ''/repos'',
      colors_enabled = True,
      toLocaleDateString = utc_date,
      path_join = (\<lambda>a b. a @ lit ''/'' @ b),
      git_log = (\<lambda>dir. Inl (JsError (lit ''line one'' @ [LF] @ lit ''line two'')))\<rparr>"

section \<open>Facts about the string functions\<close>

lemma js_split_not_Nil: "js_split sep s \<noteq> []"
  by (induction s) (auto split: list.splits)

lemma first_of_js_split:
  "(case js_split sep s of [] \<Rightarrow> [] | l # _ \<Rightarrow> l) = takeWhile (\<lambda>c. c \<noteq> sep) s"
  by (induction s) (auto split: list.splits)

lemma js_split_no_sep: "sep \<notin> set s \<Longrightarrow> js_split sep s = [s]"
  by (induction s) auto

lemma js_split_append_sep:
  "sep \<notin> set a \<Longrightarrow> js_split sep (a @ sep # s) = a # js_split sep s"
  by (induction a) auto

lemma js_split_join:
  "xs \<noteq> [] \<Longrightarrow> \<forall>x\<in>set xs. sep \<notin> set x \<Longrightarrow> js_split sep (js_join [sep] xs) = xs"
proof (induction xs)
  case Nil then show ?case by simp
next
  case (Cons x xs)
  show ?case
  proof (cases xs)
    case Nil with Cons.prems show ?thesis by (simp add: js_split_no_sep)
  next
    case (Cons y ys)
    with Cons.IH Cons.prems have "js_split sep (js_join [sep] (y # ys)) = y # ys" by simp
    with Cons Cons.prems show ?thesis by (simp add: js_split_append_sep)
  qed
qed

lemma js_join_append:
  "js_join sep (xs @ ys) =
     (if xs = [] then js_join sep ys else if ys = [] then js_join sep xs
      else js_join sep xs @ sep @ js_join sep ys)"
proof (induction sep xs rule: js_join.induct)
  case (1 sep) then show ?case by simp
next
  case (2 sep x) then show ?case by (cases ys) auto
next
  case (3 sep x y ys') then show ?case by auto
qed

lemma js_join_concat:
  "\<forall>x\<in>set xss. x \<noteq> [] \<Longrightarrow> js_join sep (map (js_join sep) xss) = js_join sep (concat xss)"
proof (induction xss)
  case Nil then show ?case by simp
next
  case (Cons a xss)
  show ?case
  proof (cases xss)
    case Nil then show ?thesis by simp
  next
    case (Cons b yss)
    with Cons.prems have "a \<noteq> []" "b \<noteq> []" by auto
    then have "concat xss \<noteq> []" using Cons by auto
    with Cons.IH Cons.prems \<open>a \<noteq> []\<close> show ?thesis
      using Cons by (simp add: js_join_append)
  qed
qed

lemma js_includes_iff: "js_includes h n \<longleftrightarrow> (\<exists>a b. h = a @ n @ b)"
proof (induction h)
  case Nil then show ?case by auto
next
  case (Cons c cs)
  show ?case
  proof
    assume "js_includes (c # cs) n"
    then consider "prefix n (c # cs)" | "js_includes cs n" by auto
    then show "\<exists>a b. c # cs = a @ n @ b"
    proof cases
      case 1 then obtain b where "c # cs = n @ b" by (auto simp: prefix_def)
      then have "c # cs = [] @ n @ b" by simp
      then show ?thesis by blast
    next
      case 2 with Cons.IH obtain a b where "cs = a @ n @ b" by blast
      then have "c # cs = (c # a) @ n @ b" by simp
      then show ?thesis by blast
    qed
  next
    assume "\<exists>a b. c # cs = a @ n @ b"
    then obtain a b where ab: "c # cs = a @ n @ b" by blast
    show "js_includes (c # cs) n"
    proof (cases a)
      case Nil
      with ab have "prefix n (c # cs)" by (simp add: prefix_def)
      then show ?thesis by simp
    next
      case (Cons a0 as)
      with ab have "cs = as @ n @ b" by simp
      with Cons.IH show ?thesis by auto
    qed
  qed
qed

lemma js_includes_subset: "js_includes h n \<Longrightarrow> set n \<subseteq> set h"
  by (auto simp: js_includes_iff)

lemma js_join_holds_element:
  "x \<in> set xs \<Longrightarrow> \<exists>a b. js_join sep xs = a @ x @ b"
proof (induction sep xs rule: js_join.induct)
  case (1 sep) then show ?case by simp
next
  case (2 sep y)
  then have "js_join sep [y] = [] @ x @ []" by simp
  then show ?case by blast
next
  case (3 sep y z zs)
  show ?case
  proof (cases "x = y")
    case True
    then have "js_join sep (y # z # zs) = [] @ x @ (sep @ js_join sep (z # zs))" by simp
    then show ?thesis by blast
  next
    case False
    with 3 obtain a b where "js_join sep (z # zs) = a @ x @ b" by auto
    then have "js_join sep (y # z # zs) = (y @ sep @ a) @ x @ b" by simp
    then show ?thesis by blast
  qed
qed

lemma count_occurrences_pos: "0 < count_occurrences h n \<longleftrightarrow> js_includes h n"
  by (induction h) auto

section \<open>Facts about the colour functions\<close>

lemma style_disabled: "style False c0 c1 s = s"
  by (simp add: style_def)

lemma ESC_in_sgr: "ESC \<in> set (sgr c)"
  by (simp add: sgr_def)

lemma no_sgr_without_ESC: "ESC \<notin> set s \<Longrightarrow> \<not> js_includes s (sgr c)"
  using js_includes_subset [of s "sgr c"] ESC_in_sgr [of c] by blast

lemma no_LF_not_included: "LF \<notin> set s \<Longrightarrow> \<not> js_includes s [LF]"
  using js_includes_subset [of s "[LF]"] by auto

lemma style_clean:
  "s \<noteq> [] \<Longrightarrow> ESC \<notin> set s \<Longrightarrow> LF \<notin> set s \<Longrightarrow> style True c0 c1 s = sgr c0 @ s @ sgr c1"
  by (simp add: style_def wrap_def no_sgr_without_ESC no_LF_not_included)

lemma js_replace_all_set:
  "set (js_replace_all pat rep s) \<subseteq> set rep \<union> set s"
proof (induction pat rep s rule: js_replace_all.induct)
  case (1 pat rep) then show ?case by simp
next
  case (2 pat rep c cs)
  show ?case
  proof (cases "pat \<noteq> [] \<and> prefix pat (c # cs)")
    case True
    with 2 have "set (js_replace_all pat rep (drop (length pat) (c # cs)))
        \<subseteq> set rep \<union> set (drop (length pat) (c # cs))" by simp
    moreover have "set (drop (length pat) (c # cs)) \<subseteq> set (c # cs)" by (rule set_drop_subset)
    ultimately show ?thesis using True by auto
  next
    case False
    with 2 show ?thesis by auto
  qed
qed

lemma LF_sgr: "LF \<in> set (sgr c) \<longleftrightarrow> LF \<in> set (lit c)"
  by (simp add: sgr_def lit_def)

lemma style_no_LF:
  assumes "LF \<notin> set s" "LF \<notin> set (lit c0)" "LF \<notin> set (lit c1)"
  shows "LF \<notin> set (style en c0 c1 s)"
proof -
  have "LF \<notin> set (js_replace_all (sgr c1) (sgr c1 @ sgr c0) s)"
    using js_replace_all_set [of "sgr c1" "sgr c1 @ sgr c0" s] assms by (auto simp: LF_sgr)
  with assms show ?thesis
    by (simp add: style_def wrap_def no_LF_not_included LF_sgr)
qed

lemma js_replace_all_clean_prefix:
  "pat \<noteq> [] \<Longrightarrow> hd pat \<notin> set a \<Longrightarrow> js_replace_all pat rep (a @ s) = a @ js_replace_all pat rep s"
proof (induction a)
  case Nil then show ?case by simp
next
  case (Cons c a)
  then have "\<not> prefix pat (c # a @ s)" by (cases pat) auto
  with Cons show ?case by simp
qed

lemma replace_newlines_clean_prefix:
  "CR \<notin> set a \<Longrightarrow> LF \<notin> set a \<Longrightarrow> a \<noteq> [] \<Longrightarrow>
   replace_newlines cls opn crs (a @ s) = crs @ a @ replace_newlines cls opn [] s"
proof (induction a arbitrary: crs)
  case Nil then show ?case by simp
next
  case (Cons c a)
  show ?case
  proof (cases a)
    case Nil with Cons.prems show ?thesis by simp
  next
    case (Cons d ds)
    with Cons.IH [of "[]"] Cons.prems show ?thesis by simp
  qed
qed

lemma style_keeps_prefix:
  assumes "a \<noteq> []" "ESC \<notin> set a" "CR \<notin> set a" "LF \<notin> set a"
    and "CR \<notin> set (lit c0)" "LF \<notin> set (lit c0)"
  shows "\<exists>q. style en c0 c1 (a @ m) = (if en then sgr c0 else []) @ a @ q"
proof (cases en)
  case False then show ?thesis by (simp add: style_def)
next
  case True
  define m' where "m' = (if js_includes (a @ m) (sgr c1)
      then js_replace_all (sgr c1) (sgr c1 @ sgr c0) m else m)"
  have hd: "hd (sgr c1) \<notin> set a" "sgr c1 \<noteq> []" using assms by (simp_all add: sgr_def)
  have inp: "(if js_includes (a @ m) (sgr c1)
      then js_replace_all (sgr c1) (sgr c1 @ sgr c0) (a @ m) else a @ m) = a @ m'"
    using hd by (simp add: m'_def js_replace_all_clean_prefix)
  have clean: "CR \<notin> set (sgr c0 @ a)" "LF \<notin> set (sgr c0 @ a)" "sgr c0 @ a \<noteq> []"
    using assms by (simp_all add: sgr_def lit_def)
  have nl: "replace_newlines (sgr c1) (sgr c0) [] ((sgr c0 @ a) @ m' @ sgr c1)
      = (sgr c0 @ a) @ replace_newlines (sgr c1) (sgr c0) [] (m' @ sgr c1)"
    using replace_newlines_clean_prefix [OF clean, of "sgr c1" "sgr c0" "[]" "m' @ sgr c1"] by simp
  show ?thesis
  proof (cases "js_includes (a @ m) [LF]")
    case True
    with \<open>en\<close> assms(1) inp nl
    have "style en c0 c1 (a @ m) = sgr c0 @ a @ replace_newlines (sgr c1) (sgr c0) [] (m' @ sgr c1)"
      by (simp add: style_def wrap_def)
    with \<open>en\<close> show ?thesis by simp
  next
    case False
    with \<open>en\<close> assms(1) inp
    have "style en c0 c1 (a @ m) = sgr c0 @ a @ m' @ sgr c1"
      by (simp add: style_def wrap_def)
    with \<open>en\<close> show ?thesis by simp
  qed
qed

lemma subseq_same_prefix: "subseq b b' \<Longrightarrow> subseq (a @ b) (a @ b')"
  by (induction a) auto

lemma js_replace_all_subseq:
  "prefix pat rep \<Longrightarrow> subseq s (js_replace_all pat rep s)"
proof (induction pat rep s rule: js_replace_all.induct)
  case (1 pat rep) then show ?case by simp
next
  case (2 pat rep c cs)
  show ?case
  proof (cases "pat \<noteq> [] \<and> prefix pat (c # cs)")
    case True
    then obtain d where d: "c # cs = pat @ d" by (auto simp: prefix_def)
    from 2(3) obtain x where x: "rep = pat @ x" by (auto simp: prefix_def)
    from d have dr: "drop (length pat) (c # cs) = d" by simp
    define r where "r = js_replace_all pat rep d"
    from 2(1) True 2(3) dr have "subseq d r" by (simp add: r_def)
    then have "subseq d (x @ r)" by (rule list_emb_append2)
    then have "subseq (pat @ d) (pat @ x @ r)" by (rule subseq_same_prefix)
    moreover from True dr have "js_replace_all pat rep (c # cs) = rep @ r" by (simp add: r_def)
    ultimately show ?thesis by (simp add: d x)
  next
    case False
    with 2 show ?thesis by auto
  qed
qed

lemma replace_newlines_subseq: "subseq (crs @ s) (replace_newlines cls opn crs s)"
proof (induction s arbitrary: crs)
  case Nil then show ?case by simp
next
  case (Cons c cs)
  show ?case
  proof (cases "c = CR")
    case True
    with Cons [of "crs @ [c]"] show ?thesis by simp
  next
    case notCR: False
    show ?thesis
    proof (cases "c = LF")
      case True
      from Cons [of "[]"] have "subseq cs (opn @ replace_newlines cls opn [] cs)"
        by (simp add: list_emb_append2)
      then have "subseq (LF # cs) (LF # opn @ replace_newlines cls opn [] cs)"
        by simp
      then have "subseq (crs @ LF # cs) (crs @ LF # opn @ replace_newlines cls opn [] cs)"
        by (rule subseq_same_prefix)
      then have "subseq (crs @ LF # cs) (cls @ crs @ LF # opn @ replace_newlines cls opn [] cs)"
        by (rule list_emb_append2)
      with True show ?thesis by simp
    next
      case False
      from Cons [of "[]"] have "subseq (c # cs) (c # replace_newlines cls opn [] cs)" by simp
      then have "subseq (crs @ c # cs) (crs @ c # replace_newlines cls opn [] cs)"
        by (rule subseq_same_prefix)
      with notCR False show ?thesis by simp
    qed
  qed
qed

lemma style_subseq: "subseq s (style en c0 c1 s)"
proof (cases "s = [] \<or> \<not> en")
  case True then show ?thesis by (auto simp: style_def)
next
  case False
  define s' where "s' = (if js_includes s (sgr c1)
      then js_replace_all (sgr c1) (sgr c1 @ sgr c0) s else s)"
  have "subseq s s'"
    by (simp add: s'_def js_replace_all_subseq)
  then have "subseq s (s' @ sgr c1)" by (rule list_emb_prefix)
  then have out: "subseq s (sgr c0 @ s' @ sgr c1)" by (rule list_emb_append2)
  have "subseq (sgr c0 @ s' @ sgr c1) (replace_newlines (sgr c1) (sgr c0) [] (sgr c0 @ s' @ sgr c1))"
    using replace_newlines_subseq [of "[]"] by simp
  with out have "subseq s (replace_newlines (sgr c1) (sgr c0) [] (sgr c0 @ s' @ sgr c1))"
    by (rule subseq_order.order_trans)
  with out False show ?thesis
    by (simp add: style_def wrap_def s'_def Let_def)
qed

lemma red_Error_prefix:
  "\<exists>q. red en (lit ''Error: '' @ m) = (if en then sgr ''31'' else []) @ lit ''Error: '' @ q"
  unfolding red_def by (rule style_keeps_prefix) (simp_all add: lit_def)

lemma red_includes_Error: "js_includes (red en (lit ''Error: '' @ m)) (lit ''Error'')"
proof -
  obtain q where "red en (lit ''Error: '' @ m) = (if en then sgr ''31'' else []) @ lit ''Error: '' @ q"
    using red_Error_prefix by blast
  then have "red en (lit ''Error: '' @ m)
      = (if en then sgr ''31'' else []) @ lit ''Error'' @ (lit '': '' @ q)"
    by (simp add: lit_def)
  then show ?thesis unfolding js_includes_iff by blast
qed

section \<open>Object identifiers in the colour functions\<close>

lemma is_hex_clean: "is_hex c \<Longrightarrow> c \<noteq> ESC \<and> c \<noteq> LF \<and> c \<noteq> CR"
  by (auto simp: is_hex_def lit_def)

lemma object_id_clean:
  assumes "is_object_id s"
  shows "ESC \<notin> set s" "LF \<notin> set s" "s \<noteq> []" "take 7 s \<noteq> []"
  using assms is_hex_clean by (auto simp: is_object_id_def list_all_iff)

lemma yellow_short_sha:
  assumes "is_object_id s"
  shows "yellow en (take 7 s) = (if en then sgr ''33'' @ take 7 s @ sgr ''39'' else take 7 s)"
proof -
  have "ESC \<notin> set (take 7 s)" "LF \<notin> set (take 7 s)"
    using object_id_clean(1,2) [OF assms] by (auto dest: in_set_takeD)
  with object_id_clean(4) [OF assms] show ?thesis
    by (simp add: yellow_def style_clean style_disabled)
qed

lemma oneline_entry_eq:
  assumes "is_object_id (oid e)"
  shows "oneline_entry E e =
     (if colors_enabled E then sgr ''33'' @ take 7 (oid e) @ sgr ''39'' else take 7 (oid e))
     @ lit '' '' @ white (colors_enabled E) (takeWhile (\<lambda>c. c \<noteq> LF) (message (commit e)))"
  by (simp add: oneline_entry_def yellow_short_sha [OF assms] first_of_js_split)

lemma oneline_entry_no_LF:
  assumes "is_object_id (oid e)"
  shows "LF \<notin> set (oneline_entry E e)"
proof -
  have a: "LF \<notin> set (take 7 (oid e))"
    using object_id_clean(2) [OF assms] by (auto dest: in_set_takeD)
  have "LF \<notin> set (takeWhile (\<lambda>c. c \<noteq> LF) (message (commit e)))"
    by (auto dest: set_takeWhileD)
  then have b: "LF \<notin> set (white (colors_enabled E) (takeWhile (\<lambda>c. c \<noteq> LF) (message (commit e))))"
    unfolding white_def by (rule style_no_LF) (simp_all add: lit_def)
  show ?thesis
    using a b by (simp add: oneline_entry_eq [OF assms] LF_sgr) (simp add: lit_def)
qed

section \<open>Counting occurrences\<close>

lemma count_occurrences_short: "length t < length n \<Longrightarrow> count_occurrences t n = 0"
  by (induction t) (auto dest: prefix_length_le)

lemma count_occurrences_zero: "\<not> js_includes h n \<Longrightarrow> count_occurrences h n = 0"
  using count_occurrences_pos [of h n] by simp

lemma prefix_before_foreign:
  "c \<notin> set n \<Longrightarrow> prefix n (u @ c # b) \<longleftrightarrow> prefix n u"
proof
  assume c: "c \<notin> set n" and p: "prefix n (u @ c # b)"
  then consider "prefix n u" | "prefix (u @ [c]) n"
    using prefix_append [of n u "c # b"] prefix_Cons [of _ c b]
    by (metis append.assoc append_Cons append_Nil prefix_def prefix_same_cases prefixI)
  then show "prefix n u"
  proof cases
    case 1 then show ?thesis .
  next
    case 2
    then have "c \<in> set n" by (auto simp: prefix_def)
    with c show ?thesis by simp
  qed
next
  assume "prefix n u"
  then show "prefix n (u @ c # b)" by (rule prefix_prefix)
qed

lemma count_occurrences_split:
  "c \<notin> set n \<Longrightarrow> n \<noteq> [] \<Longrightarrow>
   count_occurrences (a @ c # b) n = count_occurrences a n + count_occurrences b n"
proof (induction a)
  case Nil
  then have "\<not> prefix n (c # b)" by (cases n) auto
  with Nil show ?case by simp
next
  case (Cons x a)
  have "prefix n ((x # a) @ c # b) \<longleftrightarrow> prefix n (x # a)"
    using Cons.prems(1) by (rule prefix_before_foreign)
  with Cons show ?case by simp
qed

lemma count_occurrences_Cons_foreign:
  "c \<notin> set n \<Longrightarrow> n \<noteq> [] \<Longrightarrow> count_occurrences (c # b) n = count_occurrences b n"
  using count_occurrences_split [of c n "[]" b] by simp

lemma count_occurrences_join:
  "LF \<notin> set n \<Longrightarrow> n \<noteq> [] \<Longrightarrow>
   count_occurrences (js_join [LF] xs) n = sum_list (map (\<lambda>x. count_occurrences x n) xs)"
proof (induction xs)
  case Nil then show ?case by simp
next
  case (Cons x xs)
  show ?case
  proof (cases xs)
    case Nil then show ?thesis by simp
  next
    case (Cons y ys)
    with Cons.IH Cons.prems show ?thesis by (simp add: count_occurrences_split)
  qed
qed

lemma count_occurrences_marked:
  assumes sp: "sp \<notin> set p" "sp \<notin> set q" "sp \<notin> set m1" "sp \<notin> set m2" "sp \<notin> set n2"
    and len: "length m2 = length n2"
  shows "count_occurrences (p @ (m1 @ sp # m2) @ q) (m1 @ sp # n2) = (if m2 = n2 then 1 else 0)"
proof -
  let ?N = "m1 @ sp # n2"
  have occ: "u = a @ m1 \<and> v = n2 @ b"
    if "u @ sp # v = a @ ?N @ b" "sp \<notin> set u" "sp \<notin> set v" for u v a b
  proof -
    from that(1) have "u @ sp # v = (a @ m1) @ sp # (n2 @ b)" by simp
    with that(2,3) show ?thesis
      using append_Cons_eq_iff [of sp u v "a @ m1" "n2 @ b"] by simp
  qed
  have none: "count_occurrences (u @ sp # v) ?N = 0"
    if "sp \<notin> set u" "sp \<notin> set v" "length u < length m1" for u v
  proof (rule count_occurrences_zero, rule notI)
    assume "js_includes (u @ sp # v) ?N"
    then obtain a b where "u @ sp # v = a @ ?N @ b" unfolding js_includes_iff by blast
    from occ [OF this that(1,2)] have "u = a @ m1" by simp
    with that(3) show False by simp
  qed
  have tail: "count_occurrences (m1 @ sp # m2 @ q) ?N = (if m2 = n2 then 1 else 0)"
  proof (cases m1)
    case Nil
    have "count_occurrences (m2 @ q) ?N = 0"
    proof (rule count_occurrences_zero, rule notI)
      assume "js_includes (m2 @ q) ?N"
      then have "sp \<in> set (m2 @ q)" using js_includes_subset by fastforce
      with sp show False by simp
    qed
    moreover have "prefix ?N (sp # m2 @ q) \<longleftrightarrow> m2 = n2"
      using Nil len by (auto simp: prefix_def)
    ultimately show ?thesis using Nil by simp
  next
    case (Cons x m1')
    have "count_occurrences (m1' @ sp # m2 @ q) ?N = 0"
      using sp Cons by (intro none) auto
    moreover have "prefix ?N (m1 @ sp # m2 @ q) \<longleftrightarrow> m2 = n2"
      using len by (auto simp: prefix_def)
    ultimately show ?thesis using Cons by simp
  qed
  have "count_occurrences (p @ m1 @ sp # m2 @ q) ?N = (if m2 = n2 then 1 else 0)"
    using sp(1)
  proof (induction p)
    case Nil with tail show ?case by simp
  next
    case (Cons x p)
    have "\<not> prefix ?N (x # p @ m1 @ sp # m2 @ q)"
    proof
      assume "prefix ?N (x # p @ m1 @ sp # m2 @ q)"
      then obtain b where "(x # p @ m1) @ sp # (m2 @ q) = [] @ ?N @ b"
        by (auto simp: prefix_def)
      from occ [OF this] Cons.prems sp have "x # p @ m1 = [] @ m1" by simp
      then have "length (x # p @ m1) = length m1" by simp
      then show False by simp
    qed
    with Cons show ?case by simp
  qed
  then show ?thesis by simp
qed

lemma sum_list_single:
  "distinct (map f xs) \<Longrightarrow> e \<in> set xs \<Longrightarrow>
   sum_list (map (\<lambda>c. if f c = f e then 1 else 0) xs) = (1::nat)"
proof (induction xs)
  case Nil then show ?case by simp
next
  case (Cons x xs)
  show ?case
  proof (cases "f x = f e")
    case True
    from Cons.prems(1) have "f x \<notin> f ` set xs" by simp
    with True have "\<forall>c\<in>set xs. f c \<noteq> f e" by (metis image_eqI)
    then have "sum_list (map (\<lambda>c. if f c = f e then 1 else 0) xs) = (0::nat)"
      by (induction xs) auto
    with True show ?thesis by simp
  next
    case False
    with Cons show ?thesis by auto
  qed
qed

lemma js_includes_longer_needle: "js_includes t (p @ n) \<Longrightarrow> js_includes t n"
  unfolding js_includes_iff by (metis append.assoc)

lemma js_includes_after_foreign:
  "c \<notin> set a \<Longrightarrow> js_includes (a @ m) (c # r) \<Longrightarrow> js_includes m (c # r)"
  by (induction a) auto

lemma js_trim_part: "\<exists>a b. s = a @ js_trim s @ b"
proof -
  define t where "t = dropWhile js_whitespace s"
  have "s = takeWhile js_whitespace s @ t" by (simp add: t_def)
  moreover have "t = rev (dropWhile js_whitespace (rev t)) @ rev (takeWhile js_whitespace (rev t))"
    by (metis rev_append rev_rev_ident takeWhile_dropWhile_id)
  ultimately have "s = takeWhile js_whitespace s @ js_trim s @ rev (takeWhile js_whitespace (rev t))"
    by (simp add: js_trim_def t_def)
  then show ?thesis by blast
qed

lemma js_trim_includes: "js_includes (js_trim s) n \<Longrightarrow> js_includes s n"
proof -
  assume "js_includes (js_trim s) n"
  then obtain x y where "js_trim s = x @ n @ y" unfolding js_includes_iff by blast
  moreover obtain a b where "s = a @ js_trim s @ b" using js_trim_part by blast
  ultimately have "s = (a @ x) @ n @ (y @ b)" by simp
  then show ?thesis unfolding js_includes_iff by blast
qed

lemma length_lit: "length (lit s) = length s"
  by (simp add: lit_def)

section \<open>Hexadecimal strings in coloured text\<close>

text \<open>The colour functions put in only escape sequences, which hold no run of more
  than two hexadecimal digits: a longer string of such digits occurs in the coloured
  text as often as in the text itself.\<close>

lemma not_hex:
  "\<not> is_hex ESC" "\<not> is_hex LF" "\<not> is_hex CR" "\<not> is_hex 32" "\<not> is_hex 60" "\<not> is_hex 62"
  "\<not> is_hex 91" "\<not> is_hex 109"
  by (simp_all add: is_hex_def lit_def)

lemma hex_lacks: "list_all is_hex H \<Longrightarrow> \<not> is_hex c \<Longrightarrow> c \<notin> set H"
  by (auto simp: list_all_iff)

lemma prefix_hex_foreign_head:
  "list_all is_hex H \<Longrightarrow> t \<noteq> [] \<Longrightarrow> \<not> is_hex (hd t) \<Longrightarrow> prefix H t \<longleftrightarrow> H = []"
  by (cases H; cases t) auto

lemma prefix_hex_congruence:
  assumes "\<And>H'. list_all is_hex H' \<Longrightarrow> prefix H' X \<longleftrightarrow> prefix H' Y" "list_all is_hex H"
  shows "prefix H (w @ X) \<longleftrightarrow> prefix H (w @ Y)"
  using assms(2)
proof (induction w arbitrary: H)
  case Nil with assms(1) show ?case by simp
next
  case (Cons x w)
  then show ?case by (cases H) auto
qed

lemma count_hex_congruence:
  assumes "\<And>H'. list_all is_hex H' \<Longrightarrow> prefix H' X \<longleftrightarrow> prefix H' Y" "list_all is_hex H"
    and "count_occurrences X H = count_occurrences Y H"
  shows "count_occurrences (w @ X) H = count_occurrences (w @ Y) H"
proof (induction w)
  case Nil with assms(3) show ?case by simp
next
  case (Cons x w)
  have "prefix H ((x # w) @ X) \<longleftrightarrow> prefix H ((x # w) @ Y)"
    using assms(1,2) by (rule prefix_hex_congruence)
  with Cons show ?case by simp
qed

lemma js_replace_all_hex_prefix:
  "list_all is_hex H \<Longrightarrow> pat \<noteq> [] \<Longrightarrow> \<not> is_hex (hd pat) \<Longrightarrow> rep \<noteq> [] \<Longrightarrow> \<not> is_hex (hd rep)
   \<Longrightarrow> prefix H (js_replace_all pat rep s) \<longleftrightarrow> prefix H s"
proof (induction pat rep s arbitrary: H rule: js_replace_all.induct)
  case (1 pat rep) then show ?case by simp
next
  case (2 pat rep c cs)
  show ?case
  proof (cases "prefix pat (c # cs)")
    case True
    with 2(4) have "c = hd pat" by (cases pat) auto
    with 2(5) have "prefix H (c # cs) \<longleftrightarrow> H = []"
      using 2(3) by (intro prefix_hex_foreign_head) auto
    moreover have "prefix H (rep @ js_replace_all pat rep (drop (length pat) (c # cs))) \<longleftrightarrow> H = []"
      using 2(3,6,7) by (intro prefix_hex_foreign_head) auto
    ultimately show ?thesis using True 2(4) by simp
  next
    case False
    with 2 show ?thesis by (cases H) auto
  qed
qed

lemma count_sgr_front:
  assumes "list_all is_hex H" "length (lit c) < length H"
  shows "count_occurrences (sgr c @ X) H = count_occurrences X H"
proof -
  from assms(2) have ne: "H \<noteq> []" by auto
  have f: "ESC \<notin> set H" "91 \<notin> set H" "109 \<notin> set H"
    using assms(1) not_hex by (auto simp: list_all_iff)
  have a: "count_occurrences (lit c @ 109 # X) H = count_occurrences X H"
    using f ne assms(2) by (simp add: count_occurrences_split count_occurrences_short)
  have z: "count_occurrences [] H = 0" using ne by simp
  have b: "count_occurrences (91 # lit c @ 109 # X) H = count_occurrences X H"
    using count_occurrences_split [OF f(2) ne, of "[]" "lit c @ 109 # X"] a z by simp
  have "count_occurrences (ESC # 91 # lit c @ 109 # X) H = count_occurrences X H"
    using count_occurrences_split [OF f(1) ne, of "[]" "91 # lit c @ 109 # X"] b z by simp
  then show ?thesis by (simp add: sgr_def lit_def)
qed

lemma count_sgr_back:
  assumes "list_all is_hex H" "length (lit c) < length H"
  shows "count_occurrences (X @ sgr c) H = count_occurrences X H"
proof -
  have "count_occurrences (sgr c @ []) H = count_occurrences [] H"
    using assms by (rule count_sgr_front)
  then have z: "count_occurrences (sgr c) H = 0" using assms(2) by auto
  from assms(2) have ne: "H \<noteq> []" by auto
  have "ESC \<notin> set H" using assms(1) not_hex by (auto simp: list_all_iff)
  then have "count_occurrences (X @ ESC # tl (sgr c)) H
      = count_occurrences X H + count_occurrences (tl (sgr c)) H"
    using ne by (rule count_occurrences_split)
  moreover have "count_occurrences (tl (sgr c)) H \<le> count_occurrences (sgr c) H"
    by (simp add: sgr_def)
  ultimately show ?thesis using z by (simp add: sgr_def)
qed

lemma js_replace_all_hex_count:
  assumes "list_all is_hex H" "length (lit c0) < length H" "length (lit c1) < length H"
  shows "count_occurrences (js_replace_all (sgr c1) (sgr c1 @ sgr c0) s) H = count_occurrences s H"
proof (induction "sgr c1" "sgr c1 @ sgr c0" s rule: js_replace_all.induct)
  case 1 then show ?case by simp
next
  case (2 c cs)
  show ?case
  proof (cases "prefix (sgr c1) (c # cs)")
    case True
    then obtain d where d: "c # cs = sgr c1 @ d" by (auto simp: prefix_def)
    then have dr: "drop (length (sgr c1)) (c # cs) = d" by simp
    have ne: "sgr c1 \<noteq> []" by (simp add: sgr_def)
    from 2(1) True ne dr
    have ih: "count_occurrences (js_replace_all (sgr c1) (sgr c1 @ sgr c0) d) H = count_occurrences d H"
      by simp
    have "js_replace_all (sgr c1) (sgr c1 @ sgr c0) (c # cs)
        = sgr c1 @ sgr c0 @ js_replace_all (sgr c1) (sgr c1 @ sgr c0) d"
      using True ne dr by simp
    then have "count_occurrences (js_replace_all (sgr c1) (sgr c1 @ sgr c0) (c # cs)) H
        = count_occurrences d H"
      using ih assms by (simp add: count_sgr_front)
    moreover have "count_occurrences (c # cs) H = count_occurrences d H"
      unfolding d using assms by (simp add: count_sgr_front)
    ultimately show ?thesis by simp
  next
    case False
    with 2(2) have ih: "count_occurrences (js_replace_all (sgr c1) (sgr c1 @ sgr c0) cs) H
        = count_occurrences cs H" by simp
    have pre: "prefix H' (js_replace_all (sgr c1) (sgr c1 @ sgr c0) cs) \<longleftrightarrow> prefix H' cs"
      if "list_all is_hex H'" for H'
      using that by (intro js_replace_all_hex_prefix) (simp_all add: sgr_def not_hex)
    have "count_occurrences ([c] @ js_replace_all (sgr c1) (sgr c1 @ sgr c0) cs) H
        = count_occurrences ([c] @ cs) H"
      using pre assms(1) ih by (rule count_hex_congruence)
    with False show ?thesis by simp
  qed
qed

lemma replace_newlines_hex_prefix:
  "list_all is_hex H \<Longrightarrow> set crs \<subseteq> {CR} \<Longrightarrow> cls \<noteq> [] \<Longrightarrow> \<not> is_hex (hd cls)
   \<Longrightarrow> prefix H (replace_newlines cls opn crs s) \<longleftrightarrow> prefix H (crs @ s)"
proof (induction s arbitrary: crs H)
  case Nil then show ?case by simp
next
  case (Cons c cs)
  show ?case
  proof (cases "c = CR")
    case True
    with Cons.IH [of H "crs @ [c]"] Cons.prems show ?thesis by simp
  next
    case notCR: False
    show ?thesis
    proof (cases "c = LF")
      case True
      have "crs @ LF # cs \<noteq> []" by simp
      moreover have "\<not> is_hex (hd (crs @ LF # cs))"
        using Cons.prems(2) not_hex by (cases crs) auto
      ultimately have "prefix H (crs @ LF # cs) \<longleftrightarrow> H = []"
        using Cons.prems(1) by (intro prefix_hex_foreign_head)
      moreover have "prefix H (cls @ crs @ [LF] @ opn @ replace_newlines cls opn [] cs) \<longleftrightarrow> H = []"
        using Cons.prems by (intro prefix_hex_foreign_head) auto
      ultimately show ?thesis using True by simp
    next
      case False
      have "prefix H ((crs @ [c]) @ replace_newlines cls opn [] cs) \<longleftrightarrow> prefix H ((crs @ [c]) @ cs)"
      proof (rule prefix_hex_congruence)
        fix H' :: jsstring assume "list_all is_hex H'"
        with Cons.IH [of H' "[]"] Cons.prems show "prefix H' (replace_newlines cls opn [] cs) \<longleftrightarrow> prefix H' cs"
          by simp
      qed (rule Cons.prems(1))
      with notCR False show ?thesis by simp
    qed
  qed
qed

lemma replace_newlines_hex_count:
  assumes "list_all is_hex H" "length (lit c0) < length H" "length (lit c1) < length H"
  shows "count_occurrences (replace_newlines (sgr c1) (sgr c0) crs s) H = count_occurrences (crs @ s) H"
proof (induction s arbitrary: crs)
  case Nil then show ?case by simp
next
  case (Cons c cs)
  from assms(2) have ne: "H \<noteq> []" by auto
  have lf: "LF \<notin> set H" using assms(1) not_hex by (auto simp: list_all_iff)
  show ?case
  proof (cases "c = CR")
    case True
    with Cons [of "crs @ [c]"] show ?thesis by simp
  next
    case notCR: False
    show ?thesis
    proof (cases "c = LF")
      case True
      have "count_occurrences (sgr c1 @ crs @ LF # sgr c0 @ replace_newlines (sgr c1) (sgr c0) [] cs) H
          = count_occurrences (crs @ LF # sgr c0 @ replace_newlines (sgr c1) (sgr c0) [] cs) H"
        using assms by (simp add: count_sgr_front)
      also have "\<dots> = count_occurrences crs H
          + count_occurrences (sgr c0 @ replace_newlines (sgr c1) (sgr c0) [] cs) H"
        using lf ne by (rule count_occurrences_split)
      also have "\<dots> = count_occurrences crs H + count_occurrences cs H"
        using assms Cons [of "[]"] by (simp add: count_sgr_front)
      also have "\<dots> = count_occurrences (crs @ LF # cs) H"
        using lf ne by (rule count_occurrences_split [symmetric])
      finally show ?thesis using True by simp
    next
      case False
      have pre: "prefix H' (replace_newlines (sgr c1) (sgr c0) [] cs) \<longleftrightarrow> prefix H' cs"
        if "list_all is_hex H'" for H'
        using replace_newlines_hex_prefix [of H' "[]" "sgr c1" "sgr c0" cs] that
        by (simp add: sgr_def not_hex)
      have "count_occurrences ((crs @ [c]) @ replace_newlines (sgr c1) (sgr c0) [] cs) H
          = count_occurrences ((crs @ [c]) @ cs) H"
        using pre assms(1) Cons [of "[]"] by (intro count_hex_congruence) simp_all
      with notCR False show ?thesis by simp
    qed
  qed
qed

lemma style_hex_count:
  assumes "list_all is_hex H" "length (lit c0) < length H" "length (lit c1) < length H"
  shows "count_occurrences (style en c0 c1 s) H = count_occurrences s H"
proof (cases "s = [] \<or> \<not> en")
  case True then show ?thesis by (auto simp: style_def)
next
  case False
  define s' where "s' = (if js_includes s (sgr c1)
      then js_replace_all (sgr c1) (sgr c1 @ sgr c0) s else s)"
  have a: "count_occurrences s' H = count_occurrences s H"
    using assms by (simp add: s'_def js_replace_all_hex_count)
  have b: "count_occurrences (sgr c0 @ s' @ sgr c1) H = count_occurrences s H"
    using assms a count_sgr_back [of H c1 "sgr c0 @ s'"] by (simp add: count_sgr_front)
  have c: "count_occurrences (replace_newlines (sgr c1) (sgr c0) [] (sgr c0 @ s' @ sgr c1)) H
      = count_occurrences s H"
    using assms b by (simp add: replace_newlines_hex_count)
  from False b c show ?thesis
    by (simp add: style_def wrap_def s'_def Let_def)
qed

section \<open>The lines of a verbose block\<close>

lemma formatGitLog_verbose_flat:
  "formatGitLog E commits False = js_join [LF] (concat (map (verbose_lines E) commits))"
proof -
  have m: "map (verbose_entry E) commits = map (js_join [LF]) (map (verbose_lines E) commits)"
    by (induction commits) (simp_all add: verbose_entry_def)
  have ne: "\<forall>x\<in>set (map (verbose_lines E) commits). x \<noteq> []"
    by (simp add: verbose_lines_def Let_def)
  have "js_join [LF] (map (verbose_entry E) commits)
      = js_join [LF] (concat (map (verbose_lines E) commits))"
    unfolding m by (rule js_join_concat [OF ne])
  then show ?thesis by (simp add: formatGitLog_def)
qed

lemma header_count:
  assumes "is_object_id (oid c)" "is_object_id (oid e)"
  shows "count_occurrences (yellow en (lit ''commit '' @ oid c)) (lit ''commit '' @ oid e)
           = (if oid c = oid e then 1 else 0)"
proof -
  have hexc: "32 \<notin> set (oid c)" "ESC \<notin> set (oid c)" "LF \<notin> set (oid c)"
    and hexe: "32 \<notin> set (oid e)"
    using assms not_hex by (auto simp: is_object_id_def list_all_iff)
  have len: "length (oid c) = length (oid e)" using assms by (simp add: is_object_id_def)
  define p q where "p = (if en then sgr ''33'' else [])" and "q = (if en then sgr ''39'' else [])"
  have "style True ''33'' ''39'' (lit ''commit '' @ oid c)
      = sgr ''33'' @ (lit ''commit '' @ oid c) @ sgr ''39''"
    using hexc by (intro style_clean) (simp_all add: lit_def)
  then have y: "yellow en (lit ''commit '' @ oid c) = p @ (lit ''commit'' @ 32 # oid c) @ q"
    by (cases en) (simp_all add: yellow_def style_disabled p_def q_def lit_def)
  have sp: "32 \<notin> set p" "32 \<notin> set q" "32 \<notin> set (lit ''commit'')"
    by (simp_all add: p_def q_def sgr_def lit_def)
  have "count_occurrences (p @ (lit ''commit'' @ 32 # oid c) @ q) (lit ''commit'' @ 32 # oid e)
      = (if oid c = oid e then 1 else 0)"
    using sp hexc(1) hexe len by (rule count_occurrences_marked)
  moreover have "lit ''commit '' @ oid e = lit ''commit'' @ 32 # oid e" by (simp add: lit_def)
  ultimately show ?thesis using y by simp
qed

lemma quiet_lines_count:
  assumes hex: "list_all is_hex H" and len: "length H = 40"
  shows "count_occurrences (lit ''Author: '' @ cyan en nm @ lit '' <'' @ cyan en em @ lit ''>'') H
           = count_occurrences nm H + count_occurrences em H"
    and "count_occurrences (lit ''Date:   '' @ green en dt) H = count_occurrences dt H"
    and "count_occurrences (lit ''    '' @ white en msg) H = count_occurrences msg H"
proof -
  have f: "32 \<notin> set H" "60 \<notin> set H" "62 \<notin> set H" "H \<noteq> []"
    using hex len not_hex by (auto simp: list_all_iff)
  have st: "count_occurrences (style en c0 c1 s) H = count_occurrences s H"
    if "length c0 = 2" "length c1 = 2" for c0 c1 s
    using hex that len by (intro style_hex_count) (simp_all add: length_lit)
  have short: "count_occurrences (lit w) H = 0" if "length w < 40" for w
    using that len by (intro count_occurrences_short) (simp add: length_lit)
  have a: "lit ''Author: '' @ cyan en nm @ lit '' <'' @ cyan en em @ lit ''>''
      = lit ''Author:'' @ 32 # (cyan en nm @ 32 # 60 # (cyan en em @ 62 # []))"
    by (simp add: lit_def)
  show "count_occurrences (lit ''Author: '' @ cyan en nm @ lit '' <'' @ cyan en em @ lit ''>'') H
           = count_occurrences nm H + count_occurrences em H"
    unfolding a
      count_occurrences_split [OF f(1) f(4)] count_occurrences_Cons_foreign [OF f(2) f(4)]
      count_occurrences_split [OF f(3) f(4)]
    using f(4) by (simp add: short cyan_def st)
  have d: "lit ''Date:   '' @ green en dt = lit ''Date:  '' @ 32 # green en dt"
    by (simp add: lit_def)
  show "count_occurrences (lit ''Date:   '' @ green en dt) H = count_occurrences dt H"
    unfolding d count_occurrences_split [OF f(1) f(4)] by (simp add: short green_def st)
  have m: "lit ''    '' @ white en msg = lit ''   '' @ 32 # white en msg"
    by (simp add: lit_def)
  show "count_occurrences (lit ''    '' @ white en msg) H = count_occurrences msg H"
    unfolding m count_occurrences_split [OF f(1) f(4)] by (simp add: short white_def st)
qed

lemma block_count:
  assumes c: "is_object_id (oid c)" and e: "is_object_id (oid e)"
    and quiet: "\<not> js_includes (name (author (commit c))) (oid e)"
      "\<not> js_includes (email (author (commit c))) (oid e)"
      "\<not> js_includes (toLocaleDateString E (timestamp (author (commit c)) * 1000)) (oid e)"
      "\<not> js_includes (message (commit c)) (oid e)"
  shows "sum_list (map (\<lambda>x. count_occurrences x (lit ''commit '' @ oid e)) (verbose_lines E c))
           = (if oid c = oid e then 1 else 0)"
proof -
  let ?N = "lit ''commit '' @ oid e"
  have hex: "list_all is_hex (oid e)" and len: "length (oid e) = 40"
    using e by (simp_all add: is_object_id_def)
  have z: "count_occurrences x ?N = 0" if "count_occurrences x (oid e) = 0" for x
  proof (rule count_occurrences_zero, rule notI)
    assume "js_includes x ?N"
    then have "js_includes x (oid e)" by (rule js_includes_longer_needle)
    with that show False using count_occurrences_pos [of x "oid e"] by simp
  qed
  have "\<not> js_includes (js_trim (message (commit c))) (oid e)"
    using quiet(4) js_trim_includes by blast
  with quiet have q0:
    "count_occurrences (name (author (commit c))) (oid e) = 0"
    "count_occurrences (email (author (commit c))) (oid e) = 0"
    "count_occurrences (toLocaleDateString E (timestamp (author (commit c)) * 1000)) (oid e) = 0"
    "count_occurrences (js_trim (message (commit c))) (oid e) = 0"
    by (simp_all add: count_occurrences_zero)
  have "?N \<noteq> []" by (simp add: lit_def)
  then have empty: "count_occurrences [] ?N = 0" by simp
  show ?thesis
    using header_count [OF c e, of "colors_enabled E"] empty q0
    by (simp add: verbose_lines_def Let_def z quiet_lines_count [OF hex len])
qed

lemma spec_first_line_no_CR:
  assumes "CR \<notin> set m"
  shows "spec_first_line m = takeWhile (\<lambda>c. c \<noteq> LF) m"
proof -
  have "last (takeWhile (\<lambda>c. c \<noteq> LF) m) \<noteq> CR" if "takeWhile (\<lambda>c. c \<noteq> LF) m \<noteq> []"
  proof -
    from that have "last (takeWhile (\<lambda>c. c \<noteq> LF) m) \<in> set (takeWhile (\<lambda>c. c \<noteq> LF) m)"
      by (rule last_in_set)
    then have "last (takeWhile (\<lambda>c. c \<noteq> LF) m) \<in> set m" by (rule set_takeWhileD [THEN conjunct1])
    with assms show ?thesis by auto
  qed
  then show ?thesis by (auto simp: spec_first_line_def Let_def)
qed

lemma red_clean:
  assumes "\<not> js_includes m (sgr ''39'')" "LF \<notin> set m"
  shows "red True (lit ''Error: '' @ m) = sgr ''31'' @ lit ''Error: '' @ m @ sgr ''39''"
proof -
  define s where "s = lit ''Error: '' @ m"
  have "ESC \<notin> set (lit ''Error: '')" by (simp add: lit_def)
  then have "\<not> js_includes s (sgr ''39'')"
    using assms(1) js_includes_after_foreign [of ESC "lit ''Error: ''" m]
    by (auto simp: sgr_def s_def)
  moreover have "\<not> js_includes s [LF]"
    using assms(2) unfolding s_def by (intro no_LF_not_included) (simp add: lit_def)
  moreover have "s \<noteq> []" by (simp add: s_def lit_def)
  ultimately have "style True ''31'' ''39'' s = sgr ''31'' @ s @ sgr ''39''"
    by (simp add: style_def wrap_def)
  then show ?thesis by (simp add: red_def s_def)
qed

text \<open>The definitions a concrete input is evaluated with.\<close>

lemmas example_defs = demo_env_def broken_env_def initial_commit_def revert_commit_def utc_date_def
lemmas colour_defs = red_def green_def yellow_def cyan_def white_def style_def wrap_def sgr_def
lemmas format_defs = formatGitLog_def oneline_entry_def verbose_entry_def verbose_lines_def
  js_trim_def js_whitespace_def

section \<open>The oneline format\<close>

text \<open>
  C1, as amended. For commits as \<open>git.log\<close> returns them, the oneline output holds one
  line for each commit: the first 7 code units of its \<open>oid\<close> in the yellow style, one
  space, and in the white style the first line of its message, which is the text up to
  the first newline without a carriage return at its end. The lines are joined with one
  newline and nothing follows the last, so splitting the output at the newlines gives
  the lines back. With colouring disabled a line begins with the seven digits
  themselves; with colouring enabled they stand between the two escape sequences of
  the style.
\<close>

theorem formatGitLog_oneline:
  assumes "list_all is_git_log_entry commits"
  shows "let line = (\<lambda>e.
             (if colors_enabled E then sgr ''33'' @ take 7 (oid e) @ sgr ''39''
              else take 7 (oid e))
             @ lit '' ''
             @ white (colors_enabled E) (spec_first_line (message (commit e))))
         in formatGitLog E commits True = js_join [LF] (map line commits)
            \<and> (commits \<noteq> [] \<longrightarrow> js_split LF (formatGitLog E commits True) = map line commits)"
    (is "let line = ?L in _")
proof -
  have ids: "\<forall>e\<in>set commits. is_object_id (oid e)"
    and crs: "\<forall>e\<in>set commits. CR \<notin> set (message (commit e))"
    using assms by (auto simp: list_all_iff is_git_log_entry_def)
  have eq: "map (oneline_entry E) commits = map ?L commits"
  proof (rule map_cong [OF refl])
    fix e assume e: "e \<in> set commits"
    with ids crs show "oneline_entry E e = ?L e"
      by (simp add: oneline_entry_eq spec_first_line_no_CR)
  qed
  have "\<forall>x\<in>set (map (oneline_entry E) commits). LF \<notin> set x"
    using ids oneline_entry_no_LF by auto
  then have "commits \<noteq> [] \<Longrightarrow>
      js_split LF (js_join [LF] (map (oneline_entry E) commits)) = map (oneline_entry E) commits"
    by (intro js_split_join) simp_all
  then have split: "commits \<noteq> [] \<Longrightarrow> js_split LF (js_join [LF] (map ?L commits)) = map ?L commits"
    unfolding eq .
  have out: "formatGitLog E commits True = js_join [LF] (map ?L commits)"
    unfolding formatGitLog_def eq by simp
  show ?thesis
    unfolding Let_def out using split by blast
qed

text \<open>C1 at a log of two commits, colouring disabled.\<close>

theorem formatGitLog_oneline_witness:
  "list_all is_git_log_entry [revert_commit, initial_commit]
   \<and> [revert_commit, initial_commit] \<noteq> []
   \<and> js_split LF (formatGitLog (demo_env False) [revert_commit, initial_commit] True)
       = [lit ''9fceb02 Revert '' @ [0x22] @ lit ''Initial commit'' @ [0x22],
          lit ''abc1234 Initial commit'']"
proof -
  have h: "list_all is_git_log_entry [revert_commit, initial_commit]"
    by (simp add: is_git_log_entry_def is_object_id_def is_hex_def example_defs lit_def)
  from formatGitLog_oneline [OF h, of "demo_env False"] h show ?thesis
    by (simp add: Let_def spec_first_line_def example_defs colour_defs lit_def)
qed

text \<open>
  C1 as stated asks for lines that begin with the seven digits and hold nothing but
  them, a space and the first line. With colouring enabled every line begins with an
  escape sequence.
\<close>

theorem formatGitLog_oneline_counterexample:
  "formatGitLog (demo_env True) [revert_commit, initial_commit] True
     = sgr ''33'' @ lit ''9fceb02'' @ sgr ''39'' @ lit '' ''
       @ sgr ''37'' @ lit ''Revert '' @ [0x22] @ lit ''Initial commit'' @ [0x22] @ sgr ''39''
       @ [LF]
       @ sgr ''33'' @ lit ''abc1234'' @ sgr ''39'' @ lit '' ''
       @ sgr ''37'' @ lit ''Initial commit'' @ sgr ''39''
   \<and> formatGitLog (demo_env True) [revert_commit, initial_commit] True
       \<noteq> js_join [LF]
            [lit ''9fceb02 Revert '' @ [0x22] @ lit ''Initial commit'' @ [0x22],
             lit ''abc1234 Initial commit'']
   \<and> \<not> prefix (lit ''9fceb02'')
          (formatGitLog (demo_env True) [revert_commit, initial_commit] True)"
  by (simp add: format_defs example_defs colour_defs lit_def)

text \<open>
  C3, as amended. For one commit with the message \<open>Initial commit\<close> and a newline, and
  an identifier that begins with \<open>abc1234\<close>, the oneline output is \<open>abc1234\<close> in the
  yellow style, a space and \<open>Initial commit\<close> in the white style: the string
  \<open>abc1234 Initial commit\<close> when colouring is disabled, and the same two words each
  between its escape sequences when colouring is enabled.
\<close>

theorem formatGitLog_initial_commit:
  assumes "oid e = lit ''abc1234'' @ rest" "message (commit e) = lit ''Initial commit'' @ [LF]"
  shows "formatGitLog E [e] True =
     (if colors_enabled E
      then sgr ''33'' @ lit ''abc1234'' @ sgr ''39'' @ lit '' ''
           @ sgr ''37'' @ lit ''Initial commit'' @ sgr ''39''
      else lit ''abc1234 Initial commit'')"
proof -
  have a: "take 7 (oid e) = lit ''abc1234''" using assms(1) by (simp add: lit_def)
  have b: "takeWhile (\<lambda>c. c \<noteq> LF) (message (commit e)) = lit ''Initial commit''"
    using assms(2) by (simp add: lit_def)
  have c: "style True c0 c1 (lit ''abc1234'') = sgr c0 @ lit ''abc1234'' @ sgr c1"
          "style True c0 c1 (lit ''Initial commit'') = sgr c0 @ lit ''Initial commit'' @ sgr c1"
    for c0 c1
    by (rule style_clean; simp add: lit_def)+
  show ?thesis
    by (simp add: formatGitLog_def oneline_entry_def first_of_js_split a b yellow_def white_def c
        style_disabled) (simp add: lit_def)
qed

text \<open>C3 at \<open>initial_commit\<close>, colouring disabled.\<close>

theorem formatGitLog_initial_commit_witness:
  "oid initial_commit = lit ''abc1234'' @ lit ''0123456789abcdef0123456789abcdef0''
   \<and> message (commit initial_commit) = lit ''Initial commit'' @ [LF]
   \<and> formatGitLog (demo_env False) [initial_commit] True = lit ''abc1234 Initial commit''"
proof -
  have a: "oid initial_commit = lit ''abc1234'' @ lit ''0123456789abcdef0123456789abcdef0''"
    by (simp add: initial_commit_def lit_def)
  have b: "message (commit initial_commit) = lit ''Initial commit'' @ [LF]"
    by (simp add: initial_commit_def)
  from formatGitLog_initial_commit [OF a b, of "demo_env False"] a b show ?thesis
    by (simp add: demo_env_def)
qed

text \<open>C3 as stated, with colouring enabled: the output is not the plain string.\<close>

theorem formatGitLog_initial_commit_counterexample:
  "formatGitLog (demo_env True) [initial_commit] True \<noteq> lit ''abc1234 Initial commit''"
  by (simp add: format_defs example_defs colour_defs lit_def)

section \<open>The verbose format\<close>

text \<open>
  C2, as amended. The verbose output is the six elements of each commit, in the order of
  the commits, joined by newlines: the line \<open>commit\<close> with the full identifier in the
  yellow style, the line \<open>Author:\<close> with name and email each in the cyan style, the line
  \<open>Date:\<close> with the formatted time in the green style, an empty line, four spaces
  before the trimmed message in the white style, and an empty element. Nothing but the
  joining newline stands between the elements of one commit and those of the next.
  With colouring disabled the elements are the plain texts.
\<close>

theorem formatGitLog_verbose:
  "formatGitLog E commits False =
     js_join [LF] (concat (map (\<lambda>e.
       [yellow (colors_enabled E) (lit ''commit '' @ oid e),
        lit ''Author: '' @ cyan (colors_enabled E) (name (author (commit e)))
          @ lit '' <'' @ cyan (colors_enabled E) (email (author (commit e))) @ lit ''>'',
        lit ''Date:   ''
          @ green (colors_enabled E) (toLocaleDateString E (timestamp (author (commit e)) * 1000)),
        [],
        lit ''    '' @ white (colors_enabled E) (js_trim (message (commit e))),
        []]) commits))
   \<and> (\<not> colors_enabled E \<longrightarrow>
        formatGitLog E commits False =
          js_join [LF] (concat (map (\<lambda>e.
            [lit ''commit '' @ oid e,
             lit ''Author: '' @ name (author (commit e))
               @ lit '' <'' @ email (author (commit e)) @ lit ''>'',
             lit ''Date:   '' @ toLocaleDateString E (timestamp (author (commit e)) * 1000),
             [],
             lit ''    '' @ js_trim (message (commit e)),
             []]) commits)))"
    (is "_ = js_join _ (concat (map ?V _)) \<and> (_ \<longrightarrow> _ = js_join _ (concat (map ?P _)))")
proof -
  have coloured: "verbose_lines E = ?V"
    by (rule ext) (simp add: verbose_lines_def Let_def)
  have plain: "\<not> colors_enabled E \<Longrightarrow> verbose_lines E = ?P"
    by (rule ext)
      (simp add: verbose_lines_def Let_def yellow_def cyan_def green_def white_def style_disabled)
  show ?thesis
    unfolding formatGitLog_verbose_flat using coloured plain by simp
qed

text \<open>C2 at \<open>initial_commit\<close>, colouring disabled.\<close>

theorem formatGitLog_verbose_witness:
  "\<not> colors_enabled (demo_env False)
   \<and> formatGitLog (demo_env False) [initial_commit] False
       = js_join [LF]
           [lit ''commit abc12340123456789abcdef0123456789abcdef0'',
            lit ''Author: Ada <ada@example.org>'',
            lit ''Date:   Tue, Nov 14, 2023, 10:13:20 PM UTC'',
            [],
            lit ''    Initial commit'',
            []]"
  using formatGitLog_verbose [of "demo_env False" "[initial_commit]"]
  by (simp add: example_defs colour_defs js_trim_def js_whitespace_def lit_def)

text \<open>C2 as stated, with colouring enabled: the output is not the plain block.\<close>

theorem formatGitLog_verbose_counterexample:
  "formatGitLog (demo_env True) [initial_commit] False
     \<noteq> js_join [LF]
           [lit ''commit abc12340123456789abcdef0123456789abcdef0'',
            lit ''Author: Ada <ada@example.org>'',
            lit ''Date:   Tue, Nov 14, 2023, 10:13:20 PM UTC'',
            [],
            lit ''    Initial commit'',
            []]"
  by (simp add: format_defs example_defs colour_defs lit_def)

text \<open>
  C7, as amended. For commits whose identifiers are 40 lowercase hexadecimal digits, the
  verbose output contains \<open>commit\<close>, a space and the full identifier of every commit
  at least once; and exactly once when the identifiers of the log differ from each
  other and no author name, author email, formatted date or message of the log
  contains that identifier.
\<close>

theorem verbose_log_names_commit:
  assumes "list_all (\<lambda>c. is_object_id (oid c)) commits" "e \<in> set commits"
  shows "js_includes (formatGitLog E commits False) (lit ''commit '' @ oid e)
       \<and> (distinct (map oid commits)
            \<and> list_all (\<lambda>c.
                 \<not> js_includes (name (author (commit c))) (oid e)
                 \<and> \<not> js_includes (email (author (commit c))) (oid e)
                 \<and> \<not> js_includes (toLocaleDateString E (timestamp (author (commit c)) * 1000)) (oid e)
                 \<and> \<not> js_includes (message (commit c)) (oid e)) commits
          \<longrightarrow> count_occurrences (formatGitLog E commits False) (lit ''commit '' @ oid e) = 1)"
proof -
  let ?N = "lit ''commit '' @ oid e"
  let ?out = "formatGitLog E commits False"
  from assms have id: "is_object_id (oid e)" by (simp add: list_all_iff)
  have clean: "ESC \<notin> set ?N" "LF \<notin> set ?N" "?N \<noteq> []"
    using object_id_clean(1,2) [OF id] by (simp_all add: lit_def)
  have "style True ''33'' ''39'' ?N = sgr ''33'' @ ?N @ sgr ''39''"
    using clean by (intro style_clean)
  then have "\<exists>p q. yellow (colors_enabled E) ?N = p @ ?N @ q"
    by (cases "colors_enabled E") (auto simp: yellow_def style_disabled intro: exI [of _ "[]"])
  then obtain p q where y: "yellow (colors_enabled E) ?N = p @ ?N @ q" by blast
  obtain r where entry: "verbose_entry E e = p @ ?N @ r"
    using y by (simp add: verbose_entry_def verbose_lines_def Let_def)
  from assms(2) have "verbose_entry E e \<in> set (map (verbose_entry E) commits)" by simp
  then obtain a b where "js_join [LF] (map (verbose_entry E) commits) = a @ verbose_entry E e @ b"
    using js_join_holds_element by blast
  with entry have "?out = (a @ p) @ ?N @ (r @ b)"
    by (simp add: formatGitLog_def)
  then have inc: "js_includes ?out ?N"
    unfolding js_includes_iff by blast
  have once: "count_occurrences ?out ?N = 1"
    if d: "distinct (map oid commits)"
      and quiet: "list_all (\<lambda>c.
                 \<not> js_includes (name (author (commit c))) (oid e)
                 \<and> \<not> js_includes (email (author (commit c))) (oid e)
                 \<and> \<not> js_includes (toLocaleDateString E (timestamp (author (commit c)) * 1000)) (oid e)
                 \<and> \<not> js_includes (message (commit c)) (oid e)) commits"
  proof -
    have "count_occurrences ?out ?N
        = sum_list (map (\<lambda>x. count_occurrences x ?N) (concat (map (verbose_lines E) commits)))"
      unfolding formatGitLog_verbose_flat using clean(2,3) by (rule count_occurrences_join)
    also have "\<dots> = sum_list (map (\<lambda>c. sum_list (map (\<lambda>x. count_occurrences x ?N) (verbose_lines E c)))
        commits)"
      by (induction commits) simp_all
    also have "\<dots> = sum_list (map (\<lambda>c. if oid c = oid e then 1 else 0) commits)"
    proof (rule arg_cong [where f = sum_list], rule map_cong [OF refl])
      fix c assume "c \<in> set commits"
      with assms(1) quiet show "sum_list (map (\<lambda>x. count_occurrences x ?N) (verbose_lines E c))
          = (if oid c = oid e then 1 else 0)"
        by (intro block_count id) (simp_all add: list_all_iff)
    qed
    also have "\<dots> = 1" using d assms(2) by (rule sum_list_single)
    finally show ?thesis .
  qed
  from inc once show ?thesis by blast
qed

text \<open>C7 at \<open>revert_commit\<close> in a log of two commits, colouring enabled: no field of
  the log holds its identifier.\<close>

theorem verbose_log_names_commit_witness:
  "list_all (\<lambda>c. is_object_id (oid c)) [revert_commit, initial_commit]
   \<and> revert_commit \<in> set [revert_commit, initial_commit]
   \<and> distinct (map oid [revert_commit, initial_commit])
   \<and> list_all (\<lambda>c.
        \<not> js_includes (name (author (commit c))) (oid revert_commit)
        \<and> \<not> js_includes (email (author (commit c))) (oid revert_commit)
        \<and> \<not> js_includes (toLocaleDateString (demo_env True) (timestamp (author (commit c)) * 1000))
              (oid revert_commit)
        \<and> \<not> js_includes (message (commit c)) (oid revert_commit)) [revert_commit, initial_commit]
   \<and> count_occurrences (formatGitLog (demo_env True) [revert_commit, initial_commit] False)
        (lit ''commit '' @ oid revert_commit) = 1"
proof -
  have h: "list_all (\<lambda>c. is_object_id (oid c)) [revert_commit, initial_commit]"
    by (simp add: is_object_id_def is_hex_def example_defs lit_def)
  have m: "revert_commit \<in> set [revert_commit, initial_commit]" by simp
  have d: "distinct (map oid [revert_commit, initial_commit])"
    by (simp add: example_defs lit_def)
  have q: "list_all (\<lambda>c.
        \<not> js_includes (name (author (commit c))) (oid revert_commit)
        \<and> \<not> js_includes (email (author (commit c))) (oid revert_commit)
        \<and> \<not> js_includes (toLocaleDateString (demo_env True) (timestamp (author (commit c)) * 1000))
              (oid revert_commit)
        \<and> \<not> js_includes (message (commit c)) (oid revert_commit)) [revert_commit, initial_commit]"
    by (simp add: example_defs lit_def)
  from verbose_log_names_commit [OF h m, of "demo_env True"] h m d q show ?thesis
    by blast
qed

text \<open>
  C7 as stated asks for exactly one occurrence. The message \<open>git revert\<close> writes names
  the reverted commit after the word \<open>commit\<close>, so the identifier of \<open>initial_commit\<close>
  follows \<open>commit\<close> twice in the log of the two commits.
\<close>

theorem verbose_log_names_commit_counterexample:
  "count_occurrences (formatGitLog (demo_env False) [revert_commit, initial_commit] False)
     (lit ''commit '' @ oid initial_commit) = 2"
  by (simp add: format_defs example_defs colour_defs lit_def)

section \<open>Order and the empty log\<close>

text \<open>
  C8: in both formats the output for a commit stands after the output for the commits
  before it and before the output for the commits after it, each separated by one
  newline; the whole output is the renderings of the single commits, joined in the
  order of the list.
\<close>

theorem formatGitLog_keeps_order:
  "formatGitLog E (earlier @ [e] @ later) oneline =
     (if earlier = [] then [] else formatGitLog E earlier oneline @ [LF])
     @ formatGitLog E [e] oneline
     @ (if later = [] then [] else [LF] @ formatGitLog E later oneline)
   \<and> formatGitLog E commits oneline
       = js_join [LF] (map (\<lambda>e. formatGitLog E [e] oneline) commits)"
proof -
  have "js_join sep (xs @ [x] @ ys) =
      (if xs = [] then [] else js_join sep xs @ sep) @ x @ (if ys = [] then [] else sep @ js_join sep ys)"
    for sep and x :: jsstring and xs ys
    by (cases ys) (simp_all add: js_join_append)
  then show ?thesis by (simp add: formatGitLog_def comp_def)
qed

text \<open>
  C9: for the empty commit list and both values of \<open>oneline\<close>, \<open>formatGitLog\<close> returns
  the empty string.
\<close>

theorem formatGitLog_empty: "formatGitLog E [] oneline = []"
  by (simp add: formatGitLog_def)

section \<open>Failures and the selection of the format\<close>

text \<open>
  C4, as amended. When \<open>git.log\<close> throws for the directory of a repository name, the
  handler of \<open>/api/:repo\<close> answers 404, and its text is \<open>Error:\<close>, a space and the
  message in the red style, where the message is that of the thrown \<open>Error\<close>, or
  \<open>Unknown error\<close> for a thrown value that is not one. For the same name as first
  argument, \<open>run\<close> prints that text with \<open>console.error\<close>, prints nothing with
  \<open>console.log\<close> and exits with code 1. The text contains the word \<open>Error\<close>, and the
  code units of \<open>Error:\<close> and of the message stand in it in their order. When colouring
  is disabled, or the message holds neither a newline nor the closing escape sequence,
  the text is the plain one, between the two escape sequences if colouring is enabled,
  and contains the message in one piece.
\<close>

theorem commit_source_failure:
  assumes "git_log E (path_join E (root E) repo) = Inl t"
  shows "let msg = (case t of JsError m \<Rightarrow> m | NonError \<Rightarrow> lit ''Unknown error'');
             shown = red (colors_enabled E) (lit ''Error: '' @ msg)
         in api_repo E \<lparr>param_repo = repo, query = q\<rparr> = \<lparr>status = 404, body = Text shown\<rparr>
            \<and> run E (repo # rest) = \<lparr>stdout = [], stderr = [shown], exit_code = Some 1\<rparr>
            \<and> js_includes shown (lit ''Error'')
            \<and> subseq (lit ''Error: '' @ msg) shown
            \<and> ((colors_enabled E \<longrightarrow> \<not> js_includes msg (sgr ''39'') \<and> LF \<notin> set msg)
                 \<longrightarrow> shown = (if colors_enabled E
                              then sgr ''31'' @ lit ''Error: '' @ msg @ sgr ''39''
                              else lit ''Error: '' @ msg)
                     \<and> js_includes shown msg)"
proof -
  define msg where "msg = (case t of JsError m \<Rightarrow> m | NonError \<Rightarrow> lit ''Unknown error'')"
  define shown where "shown = red (colors_enabled E) (lit ''Error: '' @ msg)"
  have em: "error_message t = msg" by (simp add: msg_def error_message_def)
  have a: "api_repo E \<lparr>param_repo = repo, query = q\<rparr> = \<lparr>status = 404, body = Text shown\<rparr>"
    using assms by (simp add: api_repo_def Let_def em shown_def)
  have b: "run E (repo # rest) = \<lparr>stdout = [], stderr = [shown], exit_code = Some 1\<rparr>"
    using assms by (simp add: run_def Let_def em shown_def)
  have c: "js_includes shown (lit ''Error'')"
    unfolding shown_def by (rule red_includes_Error)
  have d: "subseq (lit ''Error: '' @ msg) shown"
    unfolding shown_def red_def by (rule style_subseq)
  have e: "shown = (if colors_enabled E then sgr ''31'' @ lit ''Error: '' @ msg @ sgr ''39''
                   else lit ''Error: '' @ msg) \<and> js_includes shown msg"
    if g: "colors_enabled E \<longrightarrow> \<not> js_includes msg (sgr ''39'') \<and> LF \<notin> set msg"
  proof (cases "colors_enabled E")
    case True
    with g have "shown = (sgr ''31'' @ lit ''Error: '') @ msg @ sgr ''39''"
      by (simp add: shown_def red_clean)
    moreover from this have "js_includes shown msg" unfolding js_includes_iff by blast
    ultimately show ?thesis using True by simp
  next
    case False
    then have "shown = lit ''Error: '' @ msg @ []" by (simp add: shown_def red_def style_disabled)
    moreover from this have "js_includes shown msg" unfolding js_includes_iff by blast
    ultimately show ?thesis using False by simp
  qed
  from a b c d e show ?thesis
    unfolding Let_def msg_def [symmetric] shown_def [symmetric] by blast
qed

text \<open>C4 at a repository that does not exist, colouring enabled.\<close>

theorem commit_source_failure_witness:
  "git_log (demo_env True) (path_join (demo_env True) (root (demo_env True)) (lit ''nope''))
     = Inl (JsError (lit ''Could not find HEAD.''))
   \<and> \<not> js_includes (lit ''Could not find HEAD.'') (sgr ''39'')
   \<and> LF \<notin> set (lit ''Could not find HEAD.'')
   \<and> api_repo (demo_env True) \<lparr>param_repo = lit ''nope'', query = []\<rparr>
       = \<lparr>status = 404,
          body = Text (sgr ''31'' @ lit ''Error: Could not find HEAD.'' @ sgr ''39'')\<rparr>
   \<and> js_includes (sgr ''31'' @ lit ''Error: Could not find HEAD.'' @ sgr ''39'')
        (lit ''Could not find HEAD.'')
   \<and> run (demo_env True) [lit ''nope'']
       = \<lparr>stdout = [],
          stderr = [sgr ''31'' @ lit ''Error: Could not find HEAD.'' @ sgr ''39''],
          exit_code = Some 1\<rparr>"
proof -
  have h: "git_log (demo_env True) (path_join (demo_env True) (root (demo_env True)) (lit ''nope''))
     = Inl (JsError (lit ''Could not find HEAD.''))"
    by (simp add: demo_env_def lit_def)
  have c: "\<not> js_includes (lit ''Could not find HEAD.'') (sgr ''39'')"
      "LF \<notin> set (lit ''Could not find HEAD.'')"
    by (simp_all add: sgr_def lit_def)
  have e: "colors_enabled (demo_env True)" by (simp add: demo_env_def)
  from commit_source_failure [OF h, of "[]" "[]"] h c e show ?thesis
    by (simp add: Let_def colour_defs lit_def)
qed

text \<open>
  C4 as stated asks for the message in the body of every failure. With colouring
  enabled, the red style closes before the newline of a message of two lines and opens
  again after it, so the body does not contain the message.
\<close>

theorem commit_source_failure_counterexample:
  "api_repo broken_env \<lparr>param_repo = lit ''demo'', query = []\<rparr>
     = \<lparr>status = 404,
        body = Text (sgr ''31'' @ lit ''Error: line one'' @ sgr ''39'' @ [LF]
                     @ sgr ''31'' @ lit ''line two'' @ sgr ''39'')\<rparr>
   \<and> \<not> js_includes
          (sgr ''31'' @ lit ''Error: line one'' @ sgr ''39'' @ [LF]
           @ sgr ''31'' @ lit ''line two'' @ sgr ''39'')
          (lit ''line one'' @ [LF] @ lit ''line two'')"
  by (simp add: api_repo_def error_message_def example_defs colour_defs lit_def)




text \<open>
  C6: with an empty argument list \<open>run\<close> prints the usage message with
  \<open>console.error\<close>, prints nothing with \<open>console.log\<close> and exits with code 1.
\<close>

theorem run_without_arguments:
  "run E [] =
     \<lparr>stdout = [],
      stderr = [lit ''No repository specified. Usage: mod.ts <repo-name> [--oneline]''],
      exit_code = Some 1\<rparr>"
  by (simp add: run_def)

text \<open>
  C10: when \<open>git.log\<close> returns the commits, the handler of \<open>/api/:repo\<close> answers 200
  with the log in the oneline format if the query has a parameter named \<open>oneline\<close>,
  whatever its value, and in the verbose format if it has none.
\<close>

theorem api_oneline_iff_parameter_present:
  assumes "git_log E (path_join E (root E) (param_repo c)) = Inr commits"
  shows "api_repo E c =
     \<lparr>status = 200,
      body = Text (formatGitLog E commits (lit ''oneline'' \<in> fst ` set (query c)))\<rparr>"
proof -
  have "(req_query c (lit ''oneline'') \<noteq> None) = (lit ''oneline'' \<in> fst ` set (query c))"
    by (simp add: req_query_def map_of_eq_None_iff)
  with assms show ?thesis by (simp add: api_repo_def Let_def)
qed

text \<open>C10 at the queries \<open>?oneline=false\<close>, \<open>?oneline\<close> and \<open>?page=2\<close>.\<close>

theorem api_oneline_iff_parameter_present_witness:
  "git_log (demo_env False) (path_join (demo_env False) (root (demo_env False)) (lit ''demo''))
     = Inr [initial_commit]
   \<and> api_repo (demo_env False) \<lparr>param_repo = lit ''demo'', query = [(lit ''oneline'', lit ''false'')]\<rparr>
       = \<lparr>status = 200, body = Text (lit ''abc1234 Initial commit'')\<rparr>
   \<and> api_repo (demo_env False) \<lparr>param_repo = lit ''demo'', query = [(lit ''oneline'', [])]\<rparr>
       = \<lparr>status = 200, body = Text (lit ''abc1234 Initial commit'')\<rparr>
   \<and> api_repo (demo_env False) \<lparr>param_repo = lit ''demo'', query = [(lit ''page'', lit ''2'')]\<rparr>
       = \<lparr>status = 200, body = Text (formatGitLog (demo_env False) [initial_commit] False)\<rparr>"
proof -
  have h: "git_log (demo_env False) (path_join (demo_env False) (root (demo_env False)) (lit ''demo''))
     = Inr [initial_commit]"
    by (simp add: demo_env_def lit_def)
  have f: "formatGitLog (demo_env False) [initial_commit] True = lit ''abc1234 Initial commit''"
    by (simp add: format_defs example_defs colour_defs lit_def)
  have p: "lit ''oneline'' \<noteq> lit ''page''" by (simp add: lit_def)
  from api_oneline_iff_parameter_present
         [of "demo_env False" "\<lparr>param_repo = lit ''demo'', query = [(lit ''oneline'', lit ''false'')]\<rparr>"
             "[initial_commit]"]
       api_oneline_iff_parameter_present
         [of "demo_env False" "\<lparr>param_repo = lit ''demo'', query = [(lit ''oneline'', [])]\<rparr>"
             "[initial_commit]"]
       api_oneline_iff_parameter_present
         [of "demo_env False" "\<lparr>param_repo = lit ''demo'', query = [(lit ''page'', lit ''2'')]\<rparr>"
             "[initial_commit]"]
       h f p
  show ?thesis by simp
qed

end
